theory Spec2Isabelle
  imports Main "HOL-Library.FSet"
begin

section \<open>Strings\<close>

text \<open>
  A Python \<open>str\<close> is a sequence of Unicode code points. The fold table of the search
  engine holds Arabic and Persian letters, which lie beyond one byte, so a string is a
  list of code points, each a natural number.
\<close>

type_synonym ustring = "nat list"

text \<open>
  \<open>str.isspace\<close> on one code point: the characters that \<open>str.strip()\<close> and
  \<open>str.split()\<close> without arguments treat as whitespace.
\<close>

definition isspace :: "nat \<Rightarrow> bool" where
  "isspace c \<longleftrightarrow>
     (9 \<le> c \<and> c \<le> 13) \<or> (28 \<le> c \<and> c \<le> 32) \<or> c = 133 \<or> c = 160 \<or> c = 5760 \<or>
     (8192 \<le> c \<and> c \<le> 8202) \<or> c = 8232 \<or> c = 8233 \<or> c = 8239 \<or> c = 8287 \<or> c = 12288"

text \<open>\<open>text.strip()\<close>: leading and trailing whitespace removed.\<close>

definition strip :: "ustring \<Rightarrow> ustring" where
  "strip text = rev (dropWhile isspace (rev (dropWhile isspace text)))"

text \<open>
  \<open>text.split()\<close>: the maximal runs of non-whitespace characters, in order; runs of
  whitespace separate them and produce no empty word.
\<close>

function split_ws :: "ustring \<Rightarrow> ustring list" where
  "split_ws text =
     (case dropWhile isspace text of
        [] \<Rightarrow> []
      | c # cs \<Rightarrow> takeWhile (\<lambda>x. \<not> isspace x) (c # cs)
                 # split_ws (dropWhile (\<lambda>x. \<not> isspace x) (c # cs)))"
  by pat_completeness auto
termination
proof (relation "measure length")
  show "wf (measure length)" by simp
next
  fix t :: ustring and c cs
  assume a: "dropWhile isspace t = c # cs"
  have "length (dropWhile (\<lambda>x. \<not> isspace x) (c # cs)) \<le> length (c # cs)"
    by (rule length_dropWhile_le)
  moreover have "\<not> isspace c"
    using a hd_dropWhile [of isspace t] by simp
  then have "dropWhile (\<lambda>x. \<not> isspace x) (c # cs) = dropWhile (\<lambda>x. \<not> isspace x) cs"
    by simp
  moreover have "length (dropWhile (\<lambda>x. \<not> isspace x) cs) \<le> length cs"
    by (rule length_dropWhile_le)
  moreover have "length (c # cs) \<le> length t"
    using length_dropWhile_le [of isspace t] a by simp
  ultimately show "(dropWhile (\<lambda>x. \<not> isspace x) (c # cs), t) \<in> measure length"
    by simp
qed

declare split_ws.simps [simp del]

text \<open>
  \<open>text.replace(old, new)\<close>: every non-overlapping occurrence of \<open>old\<close>, found from the
  left, becomes \<open>new\<close>. With an empty \<open>old\<close>, \<open>new\<close> is put before every character and
  at the end.
\<close>

function replace :: "ustring \<Rightarrow> ustring \<Rightarrow> ustring \<Rightarrow> ustring" where
  "replace old new text =
     (if old = [] then new @ concat (map (\<lambda>c. c # new) text)
      else if text = [] then []
      else if take (length old) text = old
        then new @ replace old new (drop (length old) text)
      else hd text # replace old new (tl text))"
  by pat_completeness auto
termination
  by (relation "measure (\<lambda>(old, new, text). length text)") auto

declare replace.simps [simp del]

section \<open>The normalizer\<close>

text \<open>
  \<open>SearchEngine.alts\<close>, in the order the dictionary is written (the order in which
  \<open>items()\<close> yields it): each key and value is a string of one character.
\<close>

definition alts :: "(ustring \<times> ustring) list" where
  "alts = [([1610], [1740]), ([1603], [1705]), ([1577], [1607]),
           ([1571], [1575]), ([1573], [1575]), ([1574], [1740])]"

text \<open>\<open>SearchEngine.__clean_text\<close>: the loop over \<open>alts.items()\<close>, then \<open>strip\<close>.\<close>

fun replace_all :: "(ustring \<times> ustring) list \<Rightarrow> ustring \<Rightarrow> ustring" where
  "replace_all [] text = text"
| "replace_all ((key, val) # rest) text = replace_all rest (replace key val text)"

definition clean_text :: "ustring \<Rightarrow> ustring" where
  "clean_text text = strip (replace_all alts text)"

text \<open>
  The fold of one character as the specification words it:
  U+064A to U+06CC, U+0643 to U+06A9, U+0629 to U+0647, U+0623 and U+0625 to U+0627,
  U+0626 to U+06CC; every other character stays.
\<close>

definition fold_char :: "nat \<Rightarrow> nat" where
  "fold_char c =
     (if c = 1610 then 1740 else if c = 1603 then 1705 else if c = 1577 then 1607
      else if c = 1571 then 1575 else if c = 1573 then 1575
      else if c = 1574 then 1740 else c)"

section \<open>The search engine\<close>

text \<open>
  \<open>class Record\<close>. It defines neither \<open>__eq__\<close> nor \<open>__hash__\<close>, so a set of Records
  holds objects, told apart by identity: the engine's state has a store of Record
  objects, and an object is named by its address, its position in the store.
\<close>

record Record =
  id_rec :: int
  search_text :: ustring
  type_rec :: ustring
  likes :: int

text \<open>
  \<open>class SearchEngine\<close>: \<open>subs\<close> maps an id to a Record object, \<open>keywords\<close> maps a word
  to a set of Record objects (the field \<open>keywords_map\<close>). \<open>heap\<close> is the store of every
  Record object made so far.
\<close>

record SearchEngine =
  heap :: "Record list"
  subs :: "int \<rightharpoonup> nat"
  keywords_map :: "ustring \<rightharpoonup> nat fset"

datatype error = KeyError | TypeError

text \<open>\<open>SearchEngine.__init__\<close>.\<close>

definition init :: SearchEngine where
  "init = \<lparr>heap = [], subs = Map.empty, keywords_map = Map.empty\<rparr>"

text \<open>
  The loop of \<open>index_record\<close> over \<open>search_text.split()\<close>, for the Record object \<open>a\<close>.
\<close>

fun index_words :: "nat \<Rightarrow> ustring list \<Rightarrow> (ustring \<rightharpoonup> nat fset) \<Rightarrow> (ustring \<rightharpoonup> nat fset)" where
  "index_words a [] kw = kw"
| "index_words a (w # ws) kw =
     (let kw1 = (if kw w = None then kw(w \<mapsto> {||}) else kw)
      in index_words a ws (kw1(w \<mapsto> finsert a (case kw1 w of None \<Rightarrow> {||} | Some S \<Rightarrow> S))))"

text \<open>
  \<open>SearchEngine.index_record\<close>: a new Record object is made and stored under \<open>id\<close>,
  whatever was stored there before, and added to the set of each word of its text.
\<close>

definition index_record :: "SearchEngine \<Rightarrow> int \<Rightarrow> ustring \<Rightarrow> ustring \<Rightarrow> int \<Rightarrow> SearchEngine" where
  "index_record s i text sub_type lk =
     (let text' = clean_text text;
          record = \<lparr>id_rec = i, search_text = text', type_rec = strip sub_type, likes = lk\<rparr>;
          a = length (heap s)
      in s\<lparr>heap := heap s @ [record],
           subs := (subs s)(i \<mapsto> a),
           keywords_map := index_words a (split_ws text') (keywords_map s)\<rparr>)"

text \<open>
  The loop of \<open>remove_record\<close>. \<open>set.remove\<close> raises KeyError when the object is not in
  the set; the words already handled stay handled.
\<close>

fun remove_words ::
  "nat \<Rightarrow> ustring list \<Rightarrow> (ustring \<rightharpoonup> nat fset) \<Rightarrow> (error + unit) \<times> (ustring \<rightharpoonup> nat fset)" where
  "remove_words a [] kw = (Inr (), kw)"
| "remove_words a (w # ws) kw =
     (case kw w of
        None \<Rightarrow> remove_words a ws kw
      | Some S \<Rightarrow>
          if a |\<in>| S
          then (if S |-| {|a|} = {||}
                then remove_words a ws (kw(w := None))
                else remove_words a ws (kw(w \<mapsto> S |-| {|a|})))
          else (Inl KeyError, kw))"

text \<open>
  \<open>SearchEngine.remove_record\<close>: \<open>self.subs.pop(id)\<close> raises KeyError when \<open>id\<close> is not
  a key. The result is the outcome (an error, or the removed Record object) and the
  state the engine is left in.
\<close>

definition remove_record :: "SearchEngine \<Rightarrow> int \<Rightarrow> (error + nat) \<times> SearchEngine" where
  "remove_record s i =
     (case subs s i of
        None \<Rightarrow> (Inl KeyError, s)
      | Some a \<Rightarrow>
          (case remove_words a (split_ws (search_text (heap s ! a))) (keywords_map s) of
             (Inl e, kw) \<Rightarrow> (Inl e, s\<lparr>subs := (subs s)(i := None), keywords_map := kw\<rparr>)
           | (Inr u, kw) \<Rightarrow> (Inr a, s\<lparr>subs := (subs s)(i := None), keywords_map := kw\<rparr>)))"

text \<open>
  \<open>SearchEngine.update_record\<close>. \<open>search_text\<close> and \<open>sub_type\<close> default to \<open>None\<close>,
  \<open>likes\<close> defaults to \<open>-1\<close>. The removed object's fields are assigned in place before
  \<open>index_record\<close> makes a new object from them.
\<close>

definition update_record ::
  "SearchEngine \<Rightarrow> int \<Rightarrow> ustring option \<Rightarrow> ustring option \<Rightarrow> int \<Rightarrow> (error + unit) \<times> SearchEngine" where
  "update_record s i text sub_type lk =
     (case remove_record s i of
        (Inl e, s1) \<Rightarrow> (Inl e, s1)
      | (Inr a, s1) \<Rightarrow>
          (let r = heap s1 ! a;
               r1 = r\<lparr>search_text := (case text of None \<Rightarrow> search_text r | Some t \<Rightarrow> t)\<rparr>;
               r2 = r1\<lparr>type_rec := (case sub_type of None \<Rightarrow> type_rec r1 | Some t \<Rightarrow> t)\<rparr>;
               r3 = r2\<lparr>likes := (if lk = - 1 then likes r2 else lk)\<rparr>;
               s2 = s1\<lparr>heap := (heap s1)[a := r3]\<rparr>
           in (Inr (), index_record s2 (id_rec r3) (search_text r3) (type_rec r3) (likes r3))))"

text \<open>\<open>SearchEngine.increase_likes\<close>, \<open>SearchEngine.decrease_likes\<close>.\<close>

definition increase_likes :: "SearchEngine \<Rightarrow> int \<Rightarrow> (error + unit) \<times> SearchEngine" where
  "increase_likes s i =
     (case subs s i of
        None \<Rightarrow> (Inl KeyError, s)
      | Some a \<Rightarrow> (Inr (), s\<lparr>heap := (heap s)[a := (heap s ! a)\<lparr>likes := likes (heap s ! a) + 1\<rparr>]\<rparr>))"

definition decrease_likes :: "SearchEngine \<Rightarrow> int \<Rightarrow> (error + unit) \<times> SearchEngine" where
  "decrease_likes s i =
     (case subs s i of
        None \<Rightarrow> (Inl KeyError, s)
      | Some a \<Rightarrow> (Inr (), s\<lparr>heap := (heap s)[a := (heap s ! a)\<lparr>likes := likes (heap s ! a) - 1\<rparr>]\<rparr>))"

text \<open>
  The loop of \<open>search\<close>, with its variables \<open>result\<close> and \<open>first_flag\<close>: a word that is
  not a key of \<open>keywords\<close> is passed over.
\<close>

fun search_loop :: "(ustring \<rightharpoonup> nat fset) \<Rightarrow> ustring list \<Rightarrow> nat fset \<Rightarrow> bool \<Rightarrow> nat fset" where
  "search_loop kw [] result first_flag = result"
| "search_loop kw (w # ws) result first_flag =
     (case kw w of
        None \<Rightarrow> search_loop kw ws result first_flag
      | Some S \<Rightarrow>
          if \<not> first_flag then search_loop kw ws (result |\<inter>| S) first_flag
          else search_loop kw ws S False)"

text \<open>
  \<open>SearchEngine.search\<close>: the Record objects found, by likes descending. \<open>sorted\<close> is
  stable, so objects with the same likes come in the order in which the set yields
  them, which Python leaves open; here it is the order of their addresses.
\<close>

definition search :: "SearchEngine \<Rightarrow> ustring \<Rightarrow> nat list" where
  "search s text =
     sort_key (\<lambda>a. - likes (heap s ! a))
       (sorted_list_of_fset (search_loop (keywords_map s) (split_ws (clean_text text)) {||} True))"

section \<open>States of the engine\<close>

text \<open>
  The states the engine can be in: the new engine and whatever a call of one of its
  methods leaves behind, also a call that raised.
\<close>

inductive reachable :: "SearchEngine \<Rightarrow> bool" where
  reach_init: "reachable init"
| reach_index: "reachable s \<Longrightarrow> reachable (index_record s i t ty lk)"
| reach_remove: "reachable s \<Longrightarrow> reachable (snd (remove_record s i))"
| reach_update: "reachable s \<Longrightarrow> reachable (snd (update_record s i st ty lk))"
| reach_increase: "reachable s \<Longrightarrow> reachable (snd (increase_likes s i))"
| reach_decrease: "reachable s \<Longrightarrow> reachable (snd (decrease_likes s i))"

text \<open>
  What every reachable state satisfies: \<open>subs\<close> and the word sets hold objects of the
  store only, the object stored under an id carries that id, and an object lies in the
  set of a word only if the word is a token of its text.
\<close>

definition wf_engine :: "SearchEngine \<Rightarrow> bool" where
  "wf_engine s \<longleftrightarrow>
     (\<forall>i a. subs s i = Some a \<longrightarrow> a < length (heap s) \<and> id_rec (heap s ! a) = i) \<and>
     (\<forall>w S a. keywords_map s w = Some S \<longrightarrow> a |\<in>| S \<longrightarrow>
        a < length (heap s) \<and> w \<in> set (split_ws (search_text (heap s ! a))))"

text \<open>
  The invariant of the keyword index as the specification states it: an object is
  reachable from the keyword index under a word if and only if it is the Record of some
  id and the word is a token of its search text.
\<close>

definition synced :: "SearchEngine \<Rightarrow> bool" where
  "synced s \<longleftrightarrow>
     (\<forall>w a. (\<exists>S. keywords_map s w = Some S \<and> a |\<in>| S) \<longleftrightarrow>
        ((\<exists>i. subs s i = Some a) \<and> w \<in> set (split_ws (search_text (heap s ! a)))))"

text \<open>
  What a caller can observe of a state: the two dictionaries and the fields of the
  objects that one of them still holds.
\<close>

definition held :: "SearchEngine \<Rightarrow> nat set" where
  "held s = ran (subs s) \<union> {a. \<exists>w S. keywords_map s w = Some S \<and> a |\<in>| S}"

definition observe ::
  "SearchEngine \<Rightarrow> (int \<rightharpoonup> nat) \<times> (ustring \<rightharpoonup> nat fset) \<times> (nat \<rightharpoonup> Record)" where
  "observe s = (subs s, keywords_map s, \<lambda>a. if a \<in> held s then Some (heap s ! a) else None)"

text \<open>
  The update as the specification words it: \<open>remove_record(id)\<close>, then
  \<open>index_record\<close> with the old fields, each replaced by the field that was provided.
  Here a field that was not provided is \<open>None\<close>.
\<close>

definition merged :: "'a option \<Rightarrow> 'a \<Rightarrow> 'a" where
  "merged provided old = (case provided of None \<Rightarrow> old | Some v \<Rightarrow> v)"

definition remove_then_index ::
  "SearchEngine \<Rightarrow> int \<Rightarrow> ustring option \<Rightarrow> ustring option \<Rightarrow> int option
     \<Rightarrow> (error + unit) \<times> SearchEngine" where
  "remove_then_index s i st ty sc =
     (case remove_record s i of
        (Inl e, s1) \<Rightarrow> (Inl e, s1)
      | (Inr a, s1) \<Rightarrow>
          (Inr (), index_record s1 i (merged st (search_text (heap s1 ! a)))
                     (merged ty (type_rec (heap s1 ! a))) (merged sc (likes (heap s1 ! a)))))"

text \<open>
  The argument \<open>likes\<close> that a call of \<open>update_record\<close> passes: the score when the
  caller gives one, the default \<open>-1\<close> of the signature when not.
\<close>

definition likes_arg :: "int option \<Rightarrow> int" where
  "likes_arg sc = (case sc of None \<Rightarrow> - 1 | Some v \<Rightarrow> v)"

section \<open>The user cache\<close>

text \<open>
  \<open>permission\<close> has no annotation: callers pass a name or a number, so the value is a
  string or an integer.
\<close>

datatype pyval = PStr ustring | PInt int

record UserRecord =
  user_id :: int
  permission :: pyval
  last_step :: ustring

text \<open>
  \<open>UserRecord.permission_values\<close>: the names Admin, Editor and Ordinary.
\<close>

definition permission_values :: "ustring \<rightharpoonup> int" where
  "permission_values =
     [[65, 100, 109, 105, 110] \<mapsto> 3,
      [69, 100, 105, 116, 111, 114] \<mapsto> 2,
      [79, 114, 100, 105, 110, 97, 114, 121] \<mapsto> 1]"

text \<open>
  \<open>UserRecord.update_permission\<close>: a key of the table is stored as its number, anything
  else as it is.
\<close>

definition update_permission :: "UserRecord \<Rightarrow> pyval \<Rightarrow> UserRecord" where
  "update_permission u p =
     (case p of
        PStr n \<Rightarrow> (case permission_values n of
                     Some v \<Rightarrow> u\<lparr>permission := PInt v\<rparr>
                   | None \<Rightarrow> u\<lparr>permission := p\<rparr>)
      | PInt v \<Rightarrow> u\<lparr>permission := p\<rparr>)"

text \<open>
  \<open>UserRecord.has_permission\<close>: comparing a string with an integer raises TypeError.
\<close>

definition has_permission :: "UserRecord \<Rightarrow> int \<Rightarrow> int \<Rightarrow> error + bool" where
  "has_permission u min_permission max_permission =
     (case permission u of
        PStr n \<Rightarrow> Inl TypeError
      | PInt p \<Rightarrow> Inr (p \<ge> min_permission \<and> p \<le> max_permission))"

text \<open>\<open>class UserCache\<close>: \<open>users\<close> maps a user id to its UserRecord.\<close>

type_synonym UserCache = "int \<rightharpoonup> UserRecord"

text \<open>
  \<open>UserCache.add_user\<close>. \<open>str.lower\<close> follows the Unicode case tables, which are no part
  of this program: it is the parameter \<open>lower\<close>.
\<close>

definition add_user ::
  "(ustring \<Rightarrow> ustring) \<Rightarrow> UserCache \<Rightarrow> int \<Rightarrow> pyval \<Rightarrow> ustring \<Rightarrow> UserCache" where
  "add_user lower users uid p step =
     users(uid \<mapsto> update_permission
        \<lparr>user_id = uid, permission = p,
         last_step = (if step \<noteq> [] then lower (strip step) else [])\<rparr> p)"

text \<open>\<open>UserCache.update_user_permission\<close>.\<close>

definition update_user_permission :: "UserCache \<Rightarrow> int \<Rightarrow> pyval \<Rightarrow> UserCache" where
  "update_user_permission users uid p =
     (case users uid of
        None \<Rightarrow> users
      | Some u \<Rightarrow> users(uid \<mapsto> update_permission u p))"

text \<open>\<open>UserCache.update_user_step\<close>.\<close>

definition update_user_step ::
  "(ustring \<Rightarrow> ustring) \<Rightarrow> UserCache \<Rightarrow> int \<Rightarrow> ustring \<Rightarrow> UserCache" where
  "update_user_step lower users uid step =
     (case users uid of
        None \<Rightarrow> users
      | Some u \<Rightarrow> users(uid \<mapsto> u\<lparr>last_step := lower (strip step)\<rparr>))"

text \<open>\<open>UserCache.has_permission\<close>.\<close>

definition cache_has_permission :: "UserCache \<Rightarrow> int \<Rightarrow> int \<Rightarrow> int \<Rightarrow> error + bool" where
  "cache_has_permission users uid min_permission max_permission =
     (case users uid of
        None \<Rightarrow> Inr False
      | Some u \<Rightarrow> has_permission u min_permission max_permission)"

text \<open>\<open>UserCache.remove_user\<close>: the removed UserRecord, or \<open>None\<close> for an unknown id.\<close>

definition remove_user :: "UserCache \<Rightarrow> int \<Rightarrow> UserRecord option \<times> UserCache" where
  "remove_user users uid =
     (case users uid of
        None \<Rightarrow> (None, users)
      | Some u \<Rightarrow> (Some u, users(uid := None)))"

text \<open>
  The permissions the specification allows, with the ordinal each stands for: the names
  Ordinary, Editor and Admin are 1, 2 and 3, and the ordinals 1, 2 and 3 are themselves.
\<close>

definition ordinal_of :: "pyval \<Rightarrow> int option" where
  "ordinal_of p =
     (if p = PStr [79, 114, 100, 105, 110, 97, 114, 121] \<or> p = PInt 1 then Some 1
      else if p = PStr [69, 100, 105, 116, 111, 114] \<or> p = PInt 2 then Some 2
      else if p = PStr [65, 100, 109, 105, 110] \<or> p = PInt 3 then Some 3
      else None)"

text \<open>
  The caches that the methods build from allowed permissions, starting from the new
  cache.
\<close>

inductive cache_reachable :: "(ustring \<Rightarrow> ustring) \<Rightarrow> UserCache \<Rightarrow> bool"
  for lower :: "ustring \<Rightarrow> ustring" where
  cache_new: "cache_reachable lower Map.empty"
| cache_add: "cache_reachable lower users \<Longrightarrow> ordinal_of p \<noteq> None
     \<Longrightarrow> cache_reachable lower (add_user lower users uid p step)"
| cache_permission: "cache_reachable lower users \<Longrightarrow> ordinal_of p \<noteq> None
     \<Longrightarrow> cache_reachable lower (update_user_permission users uid p)"
| cache_step: "cache_reachable lower users
     \<Longrightarrow> cache_reachable lower (update_user_step lower users uid step)"
| cache_remove: "cache_reachable lower users
     \<Longrightarrow> cache_reachable lower (snd (remove_user users uid))"

section \<open>Properties of the normalizer\<close>

lemma replace_single: "replace [k] [v] t = map (\<lambda>c. if c = k then v else c) t"
proof (induction t)
  case Nil
  show ?case by (simp add: replace.simps)
next
  case (Cons c cs)
  show ?case
    using Cons.IH by (subst replace.simps) simp
qed

lemma dropWhile_rev_dropWhile:
  "dropWhile P (rev (dropWhile P (rev (dropWhile P xs)))) = rev (dropWhile P (rev (dropWhile P xs)))"
proof (cases "dropWhile P (rev (dropWhile P xs))")
  case Nil
  show ?thesis unfolding Nil by simp
next
  case (Cons y ys)
  define t where "t = dropWhile P xs"
  define u where "u = rev (dropWhile P (rev t))"
  have c: "dropWhile P (rev t) = y # ys" using Cons unfolding t_def .
  have tne: "t \<noteq> []" using c by auto
  then have nP: "\<not> P (hd t)" unfolding t_def by (rule hd_dropWhile)
  have "rev t = takeWhile P (rev t) @ dropWhile P (rev t)" by simp
  then have "t = u @ rev (takeWhile P (rev t))"
    unfolding u_def by (metis rev_append rev_rev_ident)
  moreover have une: "u \<noteq> []" using c by (simp add: u_def)
  ultimately have "hd u = hd t"
    by (metis hd_append2)
  with nP have "\<not> P (hd u)" by simp
  with une have "dropWhile P u = u"
    by (cases u) simp_all
  then show ?thesis by (simp add: t_def u_def)
qed

lemma strip_idem: "strip (strip t) = strip t"
  by (simp add: strip_def dropWhile_rev_dropWhile)


lemma replace_all_alts: "replace_all alts t = map fold_char t"
  by (simp add: alts_def replace_single fold_char_def)

lemma isspace_fold_char: "isspace (fold_char c) = isspace c"
  by (simp add: fold_char_def isspace_def)

lemma fold_char_idem: "fold_char (fold_char c) = fold_char c"
  by (simp add: fold_char_def)

lemma strip_map:
  assumes "\<And>c. isspace (f c) = isspace c"
  shows "strip (map f t) = map f (strip t)"
proof -
  have "isspace \<circ> f = isspace" using assms by (simp add: fun_eq_iff)
  then show ?thesis
    by (simp add: strip_def dropWhile_map rev_map)
qed

lemma strip_decomp:
  "\<exists>pre suf. s = pre @ strip s @ suf \<and> (\<forall>c\<in>set pre. isspace c) \<and> (\<forall>c\<in>set suf. isspace c)"
proof -
  define d where "d = dropWhile isspace s"
  have "d = rev (dropWhile isspace (rev d)) @ rev (takeWhile isspace (rev d))"
    by (metis rev_append rev_rev_ident takeWhile_dropWhile_id)
  moreover have "strip s = rev (dropWhile isspace (rev d))"
    by (simp only: strip_def d_def)
  ultimately have d: "d = strip s @ rev (takeWhile isspace (rev d))"
    by (simp only:)
  have "s = takeWhile isspace s @ d" by (simp add: d_def)
  with d have "s = takeWhile isspace s @ strip s @ rev (takeWhile isspace (rev d))" by simp
  moreover have "\<forall>c\<in>set (takeWhile isspace s). isspace c"
    by (auto dest: set_takeWhileD)
  moreover have "\<forall>c\<in>set (rev (takeWhile isspace (rev d))). isspace c"
    by (auto dest: set_takeWhileD)
  ultimately show ?thesis by blast
qed

lemma strip_ends:
  assumes "strip s \<noteq> []"
  shows "\<not> isspace (hd (strip s)) \<and> \<not> isspace (last (strip s))"
proof -
  define d where "d = dropWhile isspace s"
  define u where "u = dropWhile isspace (rev d)"
  have su: "strip s = rev u" by (simp add: strip_def u_def d_def)
  with assms have une: "u \<noteq> []" by simp
  then have "\<not> isspace (hd u)" unfolding u_def by (rule hd_dropWhile)
  then have l: "\<not> isspace (last (strip s))" using une by (simp add: su last_rev)
  have d: "d = rev u @ rev (takeWhile isspace (rev d))"
    unfolding u_def by (metis rev_append rev_rev_ident takeWhile_dropWhile_id)
  with une have dne: "d \<noteq> []" by auto
  then have "\<not> isspace (hd d)" unfolding d_def by (rule hd_dropWhile)
  moreover have "hd d = hd (rev u)" using d une by (metis hd_append2 rev_is_Nil_conv)
  ultimately show ?thesis using l by (simp add: su)
qed

lemmas eval_text =
  clean_text_def replace_all_alts strip_def fold_char_def isspace_def split_ws.simps

text \<open>
  C8. \<open>__clean_text\<close> is idempotent. Its result is the text with every U+064A,
  U+0643, U+0629, U+0623, U+0625, U+0626 replaced by U+06CC, U+06A9, U+0647, U+0627,
  U+0627, U+06CC, cut at both ends: what is cut before and after is whitespace only,
  and the result neither begins nor ends with whitespace.
\<close>

theorem clean_text_idempotent_folds:
  "clean_text (clean_text t) = clean_text t
   \<and> clean_text t = strip (map fold_char t)
   \<and> (\<exists>pre suf. map fold_char t = pre @ clean_text t @ suf
         \<and> (\<forall>c\<in>set pre. isspace c) \<and> (\<forall>c\<in>set suf. isspace c))
   \<and> (clean_text t \<noteq> [] \<longrightarrow>
         \<not> isspace (hd (clean_text t)) \<and> \<not> isspace (last (clean_text t)))"
proof -
  have eq: "\<And>u. clean_text u = strip (map fold_char u)"
    by (simp add: clean_text_def replace_all_alts)
  have "map fold_char (strip (map fold_char t)) = strip (map fold_char t)"
    by (simp add: strip_map [of fold_char, symmetric] isspace_fold_char fold_char_idem comp_def)
  then have idem: "clean_text (clean_text t) = clean_text t" by (simp add: eq strip_idem)
  have dec: "\<exists>pre suf. map fold_char t = pre @ clean_text t @ suf
         \<and> (\<forall>c\<in>set pre. isspace c) \<and> (\<forall>c\<in>set suf. isspace c)"
    unfolding eq by (rule strip_decomp)
  have ends: "clean_text t \<noteq> [] \<longrightarrow>
         \<not> isspace (hd (clean_text t)) \<and> \<not> isspace (last (clean_text t))"
    unfolding eq using strip_ends by blast
  from idem eq dec ends show ?thesis by blast
qed

theorem clean_text_idempotent_folds_witness:
  "clean_text (clean_text [32, 160, 1610, 1603, 32, 1577, 1571, 1573, 1574, 97, 9, 12288])
     = clean_text [32, 160, 1610, 1603, 32, 1577, 1571, 1573, 1574, 97, 9, 12288]
   \<and> clean_text [32, 160, 1610, 1603, 32, 1577, 1571, 1573, 1574, 97, 9, 12288]
     = [1740, 1705, 32, 1607, 1575, 1575, 1740, 97]
   \<and> map fold_char [32, 160, 1610, 1603, 32, 1577, 1571, 1573, 1574, 97, 9, 12288]
     = [32, 160] @ clean_text [32, 160, 1610, 1603, 32, 1577, 1571, 1573, 1574, 97, 9, 12288]
         @ [9, 12288]
   \<and> isspace 32 \<and> isspace 160 \<and> isspace 9 \<and> isspace 12288
   \<and> \<not> isspace (hd (clean_text [32, 160, 1610, 1603, 32, 1577, 1571, 1573, 1574, 97, 9, 12288]))
   \<and> \<not> isspace (last (clean_text [32, 160, 1610, 1603, 32, 1577, 1571, 1573, 1574, 97, 9, 12288]))"
proof -
  let ?t = "[32, 160, 1610, 1603, 32, 1577, 1571, 1573, 1574, 97, 9, 12288] :: ustring"
  have v: "clean_text ?t = [1740, 1705, 32, 1607, 1575, 1575, 1740, 97]"
    by (simp add: clean_text_def replace_all_alts strip_def fold_char_def isspace_def)
  have ne: "clean_text ?t \<noteq> []" by (simp add: v)
  from clean_text_idempotent_folds [of ?t] ne
  have i: "clean_text (clean_text ?t) = clean_text ?t"
    and e: "\<not> isspace (hd (clean_text ?t)) \<and> \<not> isspace (last (clean_text ?t))"
    by blast+
  have m: "map fold_char ?t = [32, 160] @ clean_text ?t @ [9, 12288]"
    by (simp add: v fold_char_def)
  have s: "isspace 32 \<and> isspace 160 \<and> isspace 9 \<and> isspace 12288" by (simp add: isspace_def)
  from i v m s e show ?thesis by blast
qed

section \<open>The store invariant\<close>

lemma index_words_apply:
  "index_words a ws kw w =
     (if w \<in> set ws then Some (finsert a (case kw w of None \<Rightarrow> {||} | Some S \<Rightarrow> S)) else kw w)"
  by (induction ws arbitrary: kw) (auto simp: Let_def)

lemma remove_words_sub:
  "remove_words a ws kw = (r, kw') \<Longrightarrow> kw' w = Some S' \<Longrightarrow> \<exists>S. kw w = Some S \<and> S' |\<subseteq>| S"
proof (induction ws arbitrary: kw)
  case Nil
  then show ?case by simp
next
  case (Cons v ws)
  show ?case
  proof (cases "kw v")
    case None
    with Cons.prems have "remove_words a ws kw = (r, kw')" by simp
    from Cons.IH [OF this Cons.prems(2)] show ?thesis .
  next
    case (Some S)
    show ?thesis
    proof (cases "a |\<in>| S")
      case False
      with Some Cons.prems have "kw' = kw" by simp
      with Cons.prems(2) show ?thesis by simp
    next
      case True
      show ?thesis
      proof (cases "S |-| {|a|} = {||}")
        case e: True
        with Some True Cons.prems have "remove_words a ws (kw(v := None)) = (r, kw')" by simp
        from Cons.IH [OF this Cons.prems(2)] show ?thesis
          by (auto split: if_splits)
      next
        case ne: False
        with Some True Cons.prems have "remove_words a ws (kw(v \<mapsto> S |-| {|a|})) = (r, kw')" by simp
        from Cons.IH [OF this Cons.prems(2)] Some show ?thesis
          by (auto split: if_splits)
      qed
    qed
  qed
qed

lemma remove_words_ok:
  "remove_words a ws kw = (Inr u, kw') \<Longrightarrow> w \<in> set ws \<Longrightarrow> kw' w = Some S' \<Longrightarrow> a |\<notin>| S'"
proof (induction ws arbitrary: kw)
  case Nil
  then show ?case by simp
next
  case (Cons v ws)
  show ?case
  proof (cases "kw v")
    case None
    with Cons.prems have rw: "remove_words a ws kw = (Inr u, kw')" by simp
    show ?thesis
    proof (cases "w = v")
      case True
      with remove_words_sub [OF rw Cons.prems(3)] None show ?thesis by simp
    next
      case False
      with Cons.prems(2) have "w \<in> set ws" by simp
      from Cons.IH [OF rw this Cons.prems(3)] show ?thesis .
    qed
  next
    case (Some S)
    show ?thesis
    proof (cases "a |\<in>| S")
      case False
      with Some Cons.prems show ?thesis by simp
    next
      case True
      define kw1 where "kw1 = (if S |-| {|a|} = {||} then kw(v := None) else kw(v \<mapsto> S |-| {|a|}))"
      from Some True Cons.prems have rw: "remove_words a ws kw1 = (Inr u, kw')"
        by (auto simp: kw1_def split: if_splits)
      show ?thesis
      proof (cases "w = v")
        case wv: True
        from remove_words_sub [OF rw Cons.prems(3)] obtain S1 where
          "kw1 w = Some S1" "S' |\<subseteq>| S1" by blast
        with wv show ?thesis by (auto simp: kw1_def split: if_splits)
      next
        case False
        with Cons.prems(2) have "w \<in> set ws" by simp
        from Cons.IH [OF rw this Cons.prems(3)] show ?thesis .
      qed
    qed
  qed
qed

lemma remove_words_other:
  "w \<notin> set ws \<Longrightarrow> snd (remove_words a ws kw) w = kw w"
  by (induction ws arbitrary: kw) (auto split: option.splits)

lemma wf_init: "wf_engine init"
  by (simp add: wf_engine_def init_def)

lemma wf_engineD1:
  "wf_engine s \<Longrightarrow> subs s i = Some a \<Longrightarrow> a < length (heap s) \<and> id_rec (heap s ! a) = i"
  by (simp add: wf_engine_def)

lemma wf_engineD2:
  "wf_engine s \<Longrightarrow> keywords_map s w = Some S \<Longrightarrow> a |\<in>| S \<Longrightarrow>
     a < length (heap s) \<and> w \<in> set (split_ws (search_text (heap s ! a)))"
  by (simp add: wf_engine_def)

lemma wf_engineI:
  assumes "\<And>i a. subs s i = Some a \<Longrightarrow> a < length (heap s) \<and> id_rec (heap s ! a) = i"
    and "\<And>w S a. keywords_map s w = Some S \<Longrightarrow> a |\<in>| S \<Longrightarrow>
           a < length (heap s) \<and> w \<in> set (split_ws (search_text (heap s ! a)))"
  shows "wf_engine s"
  using assms by (simp add: wf_engine_def)

lemma wf_index_record:
  assumes wf: "wf_engine s"
  shows "wf_engine (index_record s i t ty lk)"
proof (rule wf_engineI)
  fix j a
  assume "subs (index_record s i t ty lk) j = Some a"
  then show "a < length (heap (index_record s i t ty lk))
      \<and> id_rec (heap (index_record s i t ty lk) ! a) = j"
    using wf_engineD1 [OF wf, of j a]
    by (auto simp: index_record_def Let_def nth_append split: if_splits)
next
  fix w S a
  assume k: "keywords_map (index_record s i t ty lk) w = Some S" and m: "a |\<in>| S"
  show "a < length (heap (index_record s i t ty lk))
      \<and> w \<in> set (split_ws (search_text (heap (index_record s i t ty lk) ! a)))"
  proof (cases "a = length (heap s)")
    case True
    have "w \<in> set (split_ws (clean_text t))"
    proof (rule ccontr)
      assume "w \<notin> set (split_ws (clean_text t))"
      with k have "keywords_map s w = Some S"
        by (simp add: index_record_def Let_def index_words_apply)
      from wf_engineD2 [OF wf this m] True show False by simp
    qed
    with True show ?thesis by (simp add: index_record_def Let_def)
  next
    case False
    from k m False obtain S0 where "keywords_map s w = Some S0" "a |\<in>| S0"
      by (auto simp: index_record_def Let_def index_words_apply split: if_splits option.splits)
    from wf_engineD2 [OF wf this] show ?thesis
      by (simp add: index_record_def Let_def nth_append)
  qed
qed

lemma remove_record_None: "subs s i = None \<Longrightarrow> remove_record s i = (Inl KeyError, s)"
  by (simp add: remove_record_def)

lemma remove_record_Some:
  assumes "subs s i = Some a"
  shows "heap (snd (remove_record s i)) = heap s"
    and "subs (snd (remove_record s i)) = (subs s)(i := None)"
    and "keywords_map (snd (remove_record s i))
           = snd (remove_words a (split_ws (search_text (heap s ! a))) (keywords_map s))"
    and "fst (remove_record s i)
           = (case fst (remove_words a (split_ws (search_text (heap s ! a))) (keywords_map s)) of
                Inl e \<Rightarrow> Inl e | Inr u \<Rightarrow> Inr a)"
  using assms by (simp_all add: remove_record_def split: prod.splits sum.splits)

lemma wf_remove_record:
  assumes wf: "wf_engine s"
  shows "wf_engine (snd (remove_record s i))"
proof (cases "subs s i")
  case None
  with wf show ?thesis by (simp add: remove_record_None)
next
  case (Some a)
  note f = remove_record_Some [OF Some]
  show ?thesis
  proof (rule wf_engineI)
    fix j b
    assume "subs (snd (remove_record s i)) j = Some b"
    then have "subs s j = Some b" by (simp add: f split: if_splits)
    from wf_engineD1 [OF wf this] show "b < length (heap (snd (remove_record s i)))
       \<and> id_rec (heap (snd (remove_record s i)) ! b) = j"
      by (simp add: f)
  next
    fix w S b
    assume k: "keywords_map (snd (remove_record s i)) w = Some S" and m: "b |\<in>| S"
    obtain r kw where rw:
      "remove_words a (split_ws (search_text (heap s ! a))) (keywords_map s) = (r, kw)"
      by (cases "remove_words a (split_ws (search_text (heap s ! a))) (keywords_map s)")
    with k have "kw w = Some S" by (simp add: f)
    from remove_words_sub [OF rw this] obtain S0 where
      "keywords_map s w = Some S0" "S |\<subseteq>| S0" by blast
    with m have "keywords_map s w = Some S0" "b |\<in>| S0" by auto
    from wf_engineD2 [OF wf this]
    show "b < length (heap (snd (remove_record s i)))
       \<and> w \<in> set (split_ws (search_text (heap (snd (remove_record s i)) ! b)))"
      by (simp add: f)
  qed
qed

lemma removed_not_held:
  assumes wf: "wf_engine s" and rr: "remove_record s i = (Inr a, s1)"
  shows "a \<notin> held s1"
proof -
  from rr have sa: "subs s i = Some a"
    by (auto simp: remove_record_def split: option.splits prod.splits sum.splits)
  note f = remove_record_Some [OF sa]
  from rr have s1: "s1 = snd (remove_record s i)" by simp
  let ?ws = "split_ws (search_text (heap s ! a))"
  obtain r kw where rw: "remove_words a ?ws (keywords_map s) = (r, kw)"
    by (cases "remove_words a ?ws (keywords_map s)")
  from rr f(4) rw obtain u where r: "r = Inr u"
    by (cases r) auto
  have kw: "keywords_map s1 = kw" using rw by (simp add: s1 f)
  have "a \<notin> ran (subs s1)"
  proof
    assume "a \<in> ran (subs s1)"
    then obtain j where j: "subs s1 j = Some a" by (auto simp: ran_def)
    then have "j \<noteq> i" "subs s j = Some a" by (auto simp: s1 f split: if_splits)
    with wf_engineD1 [OF wf sa] wf_engineD1 [OF wf \<open>subs s j = Some a\<close>] show False by simp
  qed
  moreover have "\<And>w S. keywords_map s1 w = Some S \<Longrightarrow> a |\<notin>| S"
  proof -
    fix w S
    assume k: "keywords_map s1 w = Some S"
    show "a |\<notin>| S"
    proof (cases "w \<in> set ?ws")
      case True
      from remove_words_ok [OF rw [unfolded r] True] k kw show ?thesis by simp
    next
      case False
      from remove_words_other [OF False, of a "keywords_map s"] rw kw k
      have ks: "keywords_map s w = Some S" by simp
      show ?thesis
      proof
        assume "a |\<in>| S"
        from wf_engineD2 [OF wf ks this] False show False by simp
      qed
    qed
  qed
  ultimately show ?thesis by (auto simp: held_def)
qed

lemma wf_heap_update:
  assumes wf: "wf_engine s" and nh: "a \<notin> held s"
  shows "wf_engine (s\<lparr>heap := (heap s)[a := r]\<rparr>)"
proof (rule wf_engineI)
  fix j b
  assume sb: "subs (s\<lparr>heap := (heap s)[a := r]\<rparr>) j = Some b"
  then have "b \<in> held s" by (auto simp: held_def ran_def)
  with nh have "b \<noteq> a" by auto
  with wf_engineD1 [OF wf, of j b] sb
  show "b < length (heap (s\<lparr>heap := (heap s)[a := r]\<rparr>))
      \<and> id_rec (heap (s\<lparr>heap := (heap s)[a := r]\<rparr>) ! b) = j"
    by simp
next
  fix w S b
  assume k: "keywords_map (s\<lparr>heap := (heap s)[a := r]\<rparr>) w = Some S" and m: "b |\<in>| S"
  then have "b \<in> held s" by (auto simp: held_def)
  with nh have "b \<noteq> a" by auto
  with wf_engineD2 [OF wf, of w S b] k m
  show "b < length (heap (s\<lparr>heap := (heap s)[a := r]\<rparr>))
      \<and> w \<in> set (split_ws (search_text (heap (s\<lparr>heap := (heap s)[a := r]\<rparr>) ! b)))"
    by simp
qed

lemma wf_update_record:
  assumes wf: "wf_engine s"
  shows "wf_engine (snd (update_record s i st ty lk))"
proof (cases "remove_record s i")
  case (Pair r s1)
  have wf1: "wf_engine s1" using wf_remove_record [OF wf, of i] Pair by simp
  show ?thesis
  proof (cases r)
    case (Inl e)
    with Pair wf1 show ?thesis by (simp add: update_record_def)
  next
    case (Inr a)
    with Pair have "a \<notin> held s1" using removed_not_held [OF wf] by simp
    from wf_index_record [OF wf_heap_update [OF wf1 this]] Pair Inr
    show ?thesis by (simp add: update_record_def Let_def)
  qed
qed

lemma wf_likes_update:
  assumes wf: "wf_engine s"
  shows "wf_engine (s\<lparr>heap := (heap s)[a := (heap s ! a)\<lparr>likes := v\<rparr>]\<rparr>)"
proof (rule wf_engineI)
  fix j b
  assume "subs (s\<lparr>heap := (heap s)[a := (heap s ! a)\<lparr>likes := v\<rparr>]\<rparr>) j = Some b"
  with wf_engineD1 [OF wf, of j b]
  show "b < length (heap (s\<lparr>heap := (heap s)[a := (heap s ! a)\<lparr>likes := v\<rparr>]\<rparr>))
      \<and> id_rec (heap (s\<lparr>heap := (heap s)[a := (heap s ! a)\<lparr>likes := v\<rparr>]\<rparr>) ! b) = j"
    by (cases "b = a") simp_all
next
  fix w S b
  assume "keywords_map (s\<lparr>heap := (heap s)[a := (heap s ! a)\<lparr>likes := v\<rparr>]\<rparr>) w = Some S"
    and "b |\<in>| S"
  with wf_engineD2 [OF wf, of w S b]
  show "b < length (heap (s\<lparr>heap := (heap s)[a := (heap s ! a)\<lparr>likes := v\<rparr>]\<rparr>))
      \<and> w \<in> set (split_ws (search_text
            (heap (s\<lparr>heap := (heap s)[a := (heap s ! a)\<lparr>likes := v\<rparr>]\<rparr>) ! b)))"
    by (cases "b = a") simp_all
qed

lemma wf_increase_likes: "wf_engine s \<Longrightarrow> wf_engine (snd (increase_likes s i))"
  by (auto simp: increase_likes_def wf_likes_update split: option.splits)

lemma wf_decrease_likes: "wf_engine s \<Longrightarrow> wf_engine (snd (decrease_likes s i))"
  by (auto simp: decrease_likes_def wf_likes_update split: option.splits)

lemma reachable_wf: "reachable s \<Longrightarrow> wf_engine s"
  by (induction rule: reachable.induct)
    (simp_all add: wf_init wf_index_record wf_remove_record wf_update_record
       wf_increase_likes wf_decrease_likes)

lemmas eval_engine =
  index_record_def remove_record_def update_record_def increase_likes_def
  decrease_likes_def init_def Let_def

lemmas eval_spec = remove_then_index_def merged_def likes_arg_def

section \<open>Errors on an unknown id\<close>

text \<open>
  C5. When \<open>id\<close> is not a key of \<open>subs\<close>, each of \<open>update_record\<close>, \<open>remove_record\<close>,
  \<open>increase_likes\<close> and \<open>decrease_likes\<close> raises KeyError, which reaches the caller, and
  the engine is left as it was.
\<close>

theorem absent_id_raises:
  assumes "subs s i = None"
  shows "update_record s i st ty lk = (Inl KeyError, s)
       \<and> remove_record s i = (Inl KeyError, s)
       \<and> increase_likes s i = (Inl KeyError, s)
       \<and> decrease_likes s i = (Inl KeyError, s)"
  using assms by (simp add: update_record_def remove_record_def increase_likes_def decrease_likes_def)

theorem absent_id_raises_witness:
  "subs init 7 = None
   \<and> update_record init 7 (Some [97]) None 3 = (Inl KeyError, init)
   \<and> remove_record init 7 = (Inl KeyError, init)
   \<and> increase_likes init 7 = (Inl KeyError, init)
   \<and> decrease_likes init 7 = (Inl KeyError, init)"
proof -
  have h: "subs init 7 = None" by (simp add: init_def)
  show ?thesis using h absent_id_raises [OF h, where st = "Some [97]" and ty = None and lk = 3] by simp
qed

section \<open>Removing a record\<close>

text \<open>
  C4. \<open>remove_record(id)\<close> with \<open>id\<close> present is to return the removed Record and to
  take it out of the set of each word of its text. Here the engine holds a Record with
  id 1 and text \<open>a a\<close> and one with id 2 and text \<open>a\<close>: \<open>remove_record(1)\<close> raises
  KeyError at the second \<open>a\<close>, where \<open>set.remove\<close> no longer finds the object, and
  returns no Record.
\<close>

theorem remove_record_repeated_word_raises:
  "subs (index_record (index_record init 1 [97, 32, 97] [116] 0) 2 [97] [116] 0) 1 = Some 0
   \<and> fst (remove_record (index_record (index_record init 1 [97, 32, 97] [116] 0) 2 [97] [116] 0) 1)
       = Inl KeyError"
  by (simp add: eval_text eval_engine)

section \<open>Updating a record\<close>

lemma held_index_record:
  "held (index_record s i t ty lk) \<subseteq> insert (length (heap s)) (held s)"
  by (auto simp: held_def index_record_def Let_def index_words_apply ran_def
      split: if_splits option.splits)

lemma observe_heap_update:
  assumes "a \<notin> held s"
  shows "observe (s\<lparr>heap := (heap s)[a := r]\<rparr>) = observe s"
proof -
  have h: "held (s\<lparr>heap := (heap s)[a := r]\<rparr>) = held s" by (simp add: held_def)
  have n: "(heap s)[a := r] ! b = heap s ! b" if "b \<in> held s" for b
  proof -
    from that assms have "a \<noteq> b" by auto
    then show ?thesis by simp
  qed
  show ?thesis by (auto simp: observe_def h fun_eq_iff n)
qed

text \<open>
  C3, as amended. In every reachable state, \<open>update_record(id, search_text, sub_type,
  likes)\<close> has the outcome of \<open>remove_record(id)\<close> followed by \<open>index_record\<close> with the
  old fields merged with the provided ones, and leaves an observably identical
  engine, where \<open>likes\<close> counts as provided only when it is not \<open>-1\<close>; with \<open>id\<close>
  absent it raises KeyError and changes nothing.
\<close>

theorem update_record_is_remove_then_index:
  assumes "reachable s"
  shows "fst (update_record s i st ty lk)
           = fst (remove_then_index s i st ty (if lk = - 1 then None else Some lk))
       \<and> observe (snd (update_record s i st ty lk))
           = observe (snd (remove_then_index s i st ty (if lk = - 1 then None else Some lk)))
       \<and> (subs s i = None \<longrightarrow> update_record s i st ty lk = (Inl KeyError, s))"
proof -
  have wf: "wf_engine s" using assms by (rule reachable_wf)
  let ?sc = "if lk = - 1 then None else Some lk"
  have absent: "subs s i = None \<longrightarrow> update_record s i st ty lk = (Inl KeyError, s)"
    by (simp add: update_record_def remove_record_None)
  obtain r s1 where rr: "remove_record s i = (r, s1)" by (cases "remove_record s i")
  show ?thesis
  proof (cases r)
    case (Inl e)
    with rr absent show ?thesis by (simp add: update_record_def remove_then_index_def)
  next
    case (Inr a)
    with rr have rr': "remove_record s i = (Inr a, s1)" by simp
    then have sa: "subs s i = Some a"
      by (auto simp: remove_record_def split: option.splits prod.splits sum.splits)
    have nh: "a \<notin> held s1" using removed_not_held [OF wf rr'] .
    have h1: "heap s1 = heap s" using remove_record_Some(1) [OF sa] rr' by simp
    have al: "a < length (heap s1)" and ida: "id_rec (heap s1 ! a) = i"
      using wf_engineD1 [OF wf sa] h1 by simp_all
    define old where "old = heap s1 ! a"
    define t' where "t' = merged st (search_text old)"
    define ty' where "ty' = merged ty (type_rec old)"
    define lk' where "lk' = merged ?sc (likes old)"
    define r3 where "r3 = old\<lparr>search_text := t', type_rec := ty', likes := lk'\<rparr>"
    have u: "update_record s i st ty lk
        = (Inr (), index_record (s1\<lparr>heap := (heap s1)[a := r3]\<rparr>) i t' ty' lk')"
      using rr' ida
      by (simp add: update_record_def Let_def r3_def t'_def ty'_def lk'_def old_def merged_def
          split: option.splits)
    have v: "remove_then_index s i st ty ?sc = (Inr (), index_record s1 i t' ty' lk')"
      using rr' by (simp add: remove_then_index_def t'_def ty'_def lk'_def old_def)
    let ?U = "index_record (s1\<lparr>heap := (heap s1)[a := r3]\<rparr>) i t' ty' lk'"
    let ?V = "index_record s1 i t' ty' lk'"
    have "a \<notin> held ?V"
      using held_index_record [of s1 i t' ty' lk'] nh al by auto
    then have "observe (?V\<lparr>heap := (heap ?V)[a := r3]\<rparr>) = observe ?V"
      by (rule observe_heap_update)
    moreover have "?U = ?V\<lparr>heap := (heap ?V)[a := r3]\<rparr>"
      by (simp add: index_record_def Let_def list_update_append al)
    ultimately have "observe ?U = observe ?V" by simp
    with u v absent show ?thesis by simp
  qed
qed

theorem update_record_is_remove_then_index_witness:
  "reachable (index_record init 1 [97] [116] 0)
   \<and> fst (update_record (index_record init 1 [97] [116] 0) 1 (Some [98]) None 4)
       = fst (remove_then_index (index_record init 1 [97] [116] 0) 1 (Some [98]) None (Some 4))
   \<and> observe (snd (update_record (index_record init 1 [97] [116] 0) 1 (Some [98]) None 4))
       = observe (snd (remove_then_index (index_record init 1 [97] [116] 0) 1 (Some [98]) None (Some 4)))"
proof -
  have r: "reachable (index_record init 1 [97] [116] 0)" by (intro reachable.intros)
  show ?thesis
    using r update_record_is_remove_then_index [OF r, where i = 1 and st = "Some [98]" and ty = None and lk = 4]
    by simp
qed

text \<open>
  C3, as stated, fails: a caller that provides the score \<open>-1\<close> gets the old score
  kept, where removing and indexing with the merged fields stores \<open>-1\<close>.
\<close>

theorem update_record_minus_one_counterexample:
  "reachable (index_record init 1 [97] [116] 0)
   \<and> subs (index_record init 1 [97] [116] 0) 1 \<noteq> None
   \<and> observe (snd (update_record (index_record init 1 [97] [116] 0) 1 None None (likes_arg (Some (- 1)))))
     \<noteq> observe (snd (remove_then_index (index_record init 1 [97] [116] 0) 1 None None (Some (- 1))))"
proof -
  let ?s = "index_record init 1 [97] [116] 0"
  let ?U = "snd (update_record ?s 1 None None (likes_arg (Some (- 1))))"
  let ?V = "snd (remove_then_index ?s 1 None None (Some (- 1)))"
  have r: "reachable ?s" by (intro reachable.intros)
  have p: "subs ?s 1 \<noteq> None" by (simp add: eval_engine)
  have u: "subs ?U 1 = Some 1" "likes (heap ?U ! 1) = 0"
    by (simp_all add: eval_engine eval_text eval_spec)
  have v: "subs ?V 1 = Some 1" "likes (heap ?V ! 1) = - 1"
    by (simp_all add: eval_engine eval_text eval_spec)
  have hu: "1 \<in> held ?U" using u(1) by (auto simp: held_def ran_def)
  have hv: "1 \<in> held ?V" using v(1) by (auto simp: held_def ran_def)
  have "observe ?U \<noteq> observe ?V"
  proof
    assume "observe ?U = observe ?V"
    then have "snd (snd (observe ?U)) 1 = snd (snd (observe ?V)) 1" by simp
    with hu hv have "heap ?U ! 1 = heap ?V ! 1" by (simp add: observe_def)
    with u(2) v(2) show False by simp
  qed
  with r p show ?thesis by simp
qed

section \<open>Adjusting the score\<close>

text \<open>
  C7. In every reachable state with \<open>id\<close> present, \<open>increase_likes(id)\<close> and
  \<open>decrease_likes(id)\<close> return normally and change the \<open>likes\<close> field of that
  Record by \<open>+1\<close> and \<open>-1\<close>, with no bound; \<open>subs\<close>, the keyword index, every other
  object and the Record of every other id stay as they were.
\<close>

theorem likes_frame:
  assumes "reachable s" and "subs s i = Some a"
  shows "fst (increase_likes s i) = Inr ()
       \<and> subs (snd (increase_likes s i)) = subs s
       \<and> keywords_map (snd (increase_likes s i)) = keywords_map s
       \<and> length (heap (snd (increase_likes s i))) = length (heap s)
       \<and> heap (snd (increase_likes s i)) ! a = (heap s ! a)\<lparr>likes := likes (heap s ! a) + 1\<rparr>
       \<and> (\<forall>b. b \<noteq> a \<longrightarrow> heap (snd (increase_likes s i)) ! b = heap s ! b)
       \<and> (\<forall>j b. j \<noteq> i \<longrightarrow> subs s j = Some b \<longrightarrow> heap (snd (increase_likes s i)) ! b = heap s ! b)
       \<and> fst (decrease_likes s i) = Inr ()
       \<and> subs (snd (decrease_likes s i)) = subs s
       \<and> keywords_map (snd (decrease_likes s i)) = keywords_map s
       \<and> length (heap (snd (decrease_likes s i))) = length (heap s)
       \<and> heap (snd (decrease_likes s i)) ! a = (heap s ! a)\<lparr>likes := likes (heap s ! a) - 1\<rparr>
       \<and> (\<forall>b. b \<noteq> a \<longrightarrow> heap (snd (decrease_likes s i)) ! b = heap s ! b)
       \<and> (\<forall>j b. j \<noteq> i \<longrightarrow> subs s j = Some b \<longrightarrow> heap (snd (decrease_likes s i)) ! b = heap s ! b)"
proof -
  have wf: "wf_engine s" using assms(1) by (rule reachable_wf)
  have al: "a < length (heap s)" using wf_engineD1 [OF wf assms(2)] by simp
  have other: "b \<noteq> a" if "j \<noteq> i" "subs s j = Some b" for j b
    using wf_engineD1 [OF wf that(2)] wf_engineD1 [OF wf assms(2)] that(1) by auto
  have keep: "(heap s)[a := r] ! b = heap s ! b" if "j \<noteq> i" "subs s j = Some b" for j b r
    using other [OF that] by simp
  show ?thesis
    using assms(2) al by (simp add: increase_likes_def decrease_likes_def keep)
qed

theorem likes_frame_witness:
  "reachable (index_record init 1 [97] [116] 0)
   \<and> subs (index_record init 1 [97] [116] 0) 1 = Some 0
   \<and> likes (heap (index_record init 1 [97] [116] 0) ! 0) = 0
   \<and> heap (snd (decrease_likes (index_record init 1 [97] [116] 0) 1)) ! 0
       = (heap (index_record init 1 [97] [116] 0) ! 0)\<lparr>likes := - 1\<rparr>
   \<and> heap (snd (increase_likes (index_record init 1 [97] [116] 0) 1)) ! 0
       = (heap (index_record init 1 [97] [116] 0) ! 0)\<lparr>likes := 1\<rparr>"
proof -
  have r: "reachable (index_record init 1 [97] [116] 0)" by (intro reachable.intros)
  have p: "subs (index_record init 1 [97] [116] 0) 1 = Some 0" by (simp add: eval_engine)
  have l: "likes (heap (index_record init 1 [97] [116] 0) ! 0) = 0" by (simp add: eval_engine)
  show ?thesis using r p l likes_frame [OF r p] by simp
qed

section \<open>Search\<close>

lemma sorted_list_of_fset_empty: "sorted_list_of_fset {||} = []"
  by (simp add: sorted_list_of_fset.rep_eq)

text \<open>
  C6. A query that has no token after \<open>__clean_text\<close> and \<open>split\<close>, such as an empty
  one or one of whitespace only, makes \<open>search\<close> return the empty list.
\<close>

theorem search_no_tokens:
  assumes "split_ws (clean_text q) = []"
  shows "search s q = []"
  using assms by (simp add: search_def sorted_list_of_fset_empty)

theorem search_no_tokens_witness:
  "split_ws (clean_text [32, 9]) = []
   \<and> search (index_record init 1 [97] [116] 0) [32, 9] = []"
proof -
  have h: "split_ws (clean_text [32, 9]) = []" by code_simp
  show ?thesis using h search_no_tokens [OF h, where s = "index_record init 1 [97] [116] 0"] by simp
qed

lemma search_loop_False:
  "a |\<in>| search_loop kw ws R False \<longleftrightarrow> a |\<in>| R \<and> (\<forall>w\<in>set ws. \<forall>S. kw w = Some S \<longrightarrow> a |\<in>| S)"
  by (induction ws arbitrary: R) (auto split: option.splits)

lemma search_loop_True:
  "a |\<in>| search_loop kw ws R True \<longleftrightarrow>
     (if \<exists>w\<in>set ws. kw w \<noteq> None then \<forall>w\<in>set ws. \<forall>S. kw w = Some S \<longrightarrow> a |\<in>| S else a |\<in>| R)"
proof (induction ws arbitrary: R)
  case Nil
  show ?case by simp
next
  case (Cons v ws)
  show ?case
  proof (cases "kw v")
    case None
    then show ?thesis using Cons.IH [of R] by auto
  next
    case (Some S)
    then show ?thesis by (auto simp: search_loop_False)
  qed
qed

lemma set_search:
  "set (search s q) = fset (search_loop (keywords_map s) (split_ws (clean_text q)) {||} True)"
  by (simp add: search_def)

text \<open>
  C1, as amended. \<open>search(q)\<close> cleans and splits \<open>q\<close>, passes over every token that is
  not a key of the keyword index, and returns exactly the objects that lie in the set
  of every remaining token, none when no token of \<open>q\<close> is a key. In a state where the
  index invariant holds these are exactly the Records of the id-to-Record mapping whose
  text has every token of \<open>q\<close> that is a key of the index.
\<close>

theorem search_present_tokens:
  "(a \<in> set (search s q) \<longleftrightarrow>
      (\<exists>w\<in>set (split_ws (clean_text q)). keywords_map s w \<noteq> None)
      \<and> (\<forall>w\<in>set (split_ws (clean_text q)). \<forall>S. keywords_map s w = Some S \<longrightarrow> a |\<in>| S))
   \<and> (synced s \<longrightarrow>
       (a \<in> set (search s q) \<longleftrightarrow>
          (\<exists>w\<in>set (split_ws (clean_text q)). keywords_map s w \<noteq> None)
          \<and> (\<exists>i. subs s i = Some a)
          \<and> (\<forall>w\<in>set (split_ws (clean_text q)). keywords_map s w \<noteq> None \<longrightarrow>
                w \<in> set (split_ws (search_text (heap s ! a))))))"
proof -
  let ?ws = "split_ws (clean_text q)"
  have first: "a \<in> set (search s q) \<longleftrightarrow>
      (\<exists>w\<in>set ?ws. keywords_map s w \<noteq> None)
      \<and> (\<forall>w\<in>set ?ws. \<forall>S. keywords_map s w = Some S \<longrightarrow> a |\<in>| S)"
    by (simp add: set_search search_loop_True)
  have second: "a \<in> set (search s q) \<longleftrightarrow>
          (\<exists>w\<in>set ?ws. keywords_map s w \<noteq> None)
          \<and> (\<exists>i. subs s i = Some a)
          \<and> (\<forall>w\<in>set ?ws. keywords_map s w \<noteq> None \<longrightarrow>
                w \<in> set (split_ws (search_text (heap s ! a))))" if sy: "synced s"
  proof -
    have sy': "(\<exists>S. keywords_map s w = Some S \<and> a |\<in>| S) \<longleftrightarrow>
        ((\<exists>i. subs s i = Some a) \<and> w \<in> set (split_ws (search_text (heap s ! a))))" for w
      using sy by (simp add: synced_def)
    show ?thesis
    proof
      assume "a \<in> set (search s q)"
      with first have ex: "\<exists>w\<in>set ?ws. keywords_map s w \<noteq> None"
        and al: "\<And>w S. w \<in> set ?ws \<Longrightarrow> keywords_map s w = Some S \<Longrightarrow> a |\<in>| S" by auto
      from ex obtain w0 S0 where "w0 \<in> set ?ws" "keywords_map s w0 = Some S0" by auto
      with al sy' [of w0] have "\<exists>i. subs s i = Some a" by blast
      moreover have "w \<in> set (split_ws (search_text (heap s ! a)))"
        if "w \<in> set ?ws" "keywords_map s w \<noteq> None" for w
        using that al sy' [of w] by blast
      ultimately show "(\<exists>w\<in>set ?ws. keywords_map s w \<noteq> None)
          \<and> (\<exists>i. subs s i = Some a)
          \<and> (\<forall>w\<in>set ?ws. keywords_map s w \<noteq> None \<longrightarrow>
                w \<in> set (split_ws (search_text (heap s ! a))))"
        using ex by blast
    next
      assume rhs: "(\<exists>w\<in>set ?ws. keywords_map s w \<noteq> None)
          \<and> (\<exists>i. subs s i = Some a)
          \<and> (\<forall>w\<in>set ?ws. keywords_map s w \<noteq> None \<longrightarrow>
                w \<in> set (split_ws (search_text (heap s ! a))))"
      have "a |\<in>| S" if "w \<in> set ?ws" "keywords_map s w = Some S" for w S
      proof -
        from rhs that have "(\<exists>i. subs s i = Some a) \<and> w \<in> set (split_ws (search_text (heap s ! a)))"
          by auto
        with sy' [of w] that(2) show ?thesis by auto
      qed
      with rhs first show "a \<in> set (search s q)" by blast
    qed
  qed
  from first second show ?thesis by blast
qed

lemma synced_init: "synced init"
  by (simp add: synced_def init_def)

lemma synced_index_fresh:
  assumes wf: "wf_engine s" and sy: "synced s" and fresh: "subs s i = None"
  shows "synced (index_record s i t ty lk)"
  unfolding synced_def
proof (intro allI)
  fix w a
  let ?s' = "index_record s i t ty lk"
  let ?n = "length (heap s)"
  let ?ws = "split_ws (clean_text t)"
  have sy': "(\<exists>S. keywords_map s w = Some S \<and> a |\<in>| S) \<longleftrightarrow>
      ((\<exists>j. subs s j = Some a) \<and> w \<in> set (split_ws (search_text (heap s ! a))))"
    using sy by (simp add: synced_def)
  have kw: "keywords_map ?s' w =
     (if w \<in> set ?ws then Some (finsert ?n (case keywords_map s w of None \<Rightarrow> {||} | Some S \<Rightarrow> S))
      else keywords_map s w)"
    by (simp add: index_record_def Let_def index_words_apply)
  have sb: "subs ?s' = (subs s)(i \<mapsto> ?n)" by (simp add: index_record_def Let_def)
  have hp: "heap ?s' = heap s @ [\<lparr>id_rec = i, search_text = clean_text t,
      type_rec = strip ty, likes = lk\<rparr>]" by (simp add: index_record_def Let_def)
  show "(\<exists>S. keywords_map ?s' w = Some S \<and> a |\<in>| S) \<longleftrightarrow>
      ((\<exists>j. subs ?s' j = Some a) \<and> w \<in> set (split_ws (search_text (heap ?s' ! a))))"
  proof (cases "a = ?n")
    case True
    have no: "\<not> (\<exists>S. keywords_map s w = Some S \<and> ?n |\<in>| S)"
      using wf_engineD2 [OF wf, of w _ ?n] by auto
    have l: "(\<exists>S. keywords_map ?s' w = Some S \<and> a |\<in>| S) \<longleftrightarrow> w \<in> set ?ws"
      using no True by (auto simp: kw)
    have r: "((\<exists>j. subs ?s' j = Some a) \<and> w \<in> set (split_ws (search_text (heap ?s' ! a))))
        \<longleftrightarrow> w \<in> set ?ws"
      using True by (auto simp: sb hp)
    show ?thesis by (simp only: l r)
  next
    case False
    have l: "(\<exists>S. keywords_map ?s' w = Some S \<and> a |\<in>| S)
        \<longleftrightarrow> (\<exists>S. keywords_map s w = Some S \<and> a |\<in>| S)"
      using False by (auto simp: kw split: option.splits)
    have j: "(\<exists>j. subs ?s' j = Some a) \<longleftrightarrow> (\<exists>j. subs s j = Some a)"
    proof
      assume "\<exists>j. subs ?s' j = Some a"
      then obtain j where "subs ?s' j = Some a" ..
      with False have "subs s j = Some a" by (simp add: sb split: if_splits)
      then show "\<exists>j. subs s j = Some a" ..
    next
      assume "\<exists>j. subs s j = Some a"
      then obtain j where j: "subs s j = Some a" ..
      with fresh have "j \<noteq> i" by auto
      with j have "subs ?s' j = Some a" by (simp add: sb)
      then show "\<exists>j. subs ?s' j = Some a" ..
    qed
    show ?thesis
    proof (cases "a < ?n")
      case True
      then have "heap ?s' ! a = heap s ! a" by (simp add: hp nth_append)
      with l j sy' show ?thesis by simp
    next
      case False
      have "\<not> (\<exists>S. keywords_map s w = Some S \<and> a |\<in>| S)"
        using wf_engineD2 [OF wf, of w _ a] False by auto
      moreover have "\<not> (\<exists>j. subs s j = Some a)"
        using wf_engineD1 [OF wf, of _ a] False by auto
      ultimately show ?thesis using l j by simp
    qed
  qed
qed

theorem search_present_tokens_witness:
  "synced (index_record init 1 [97] [116] 0)
   \<and> 0 \<in> set (search (index_record init 1 [97] [116] 0) [97, 32, 98])"
proof -
  let ?s = "index_record init 1 [97] [116] 0"
  have sy: "synced ?s"
    by (rule synced_index_fresh [OF wf_init synced_init]) (simp add: init_def)
  have t: "split_ws (clean_text [97, 32, 98]) = [[97], [98]]" by (simp add: eval_text)
  have k: "keywords_map ?s [97] = Some {|0|}" "keywords_map ?s [98] = None"
    by (simp_all add: eval_text eval_engine)
  have "subs ?s 1 = Some 0" by (simp add: eval_engine)
  then have e: "\<exists>i. subs ?s i = Some 0" by blast
  have x: "split_ws (search_text (heap ?s ! 0)) = [[97]]" by (simp add: eval_text eval_engine)
  from search_present_tokens [of 0 ?s "[97, 32, 98]"] sy
  have "0 \<in> set (search ?s [97, 32, 98]) \<longleftrightarrow>
          (\<exists>w\<in>set (split_ws (clean_text [97, 32, 98])). keywords_map ?s w \<noteq> None)
          \<and> (\<exists>i. subs ?s i = Some 0)
          \<and> (\<forall>w\<in>set (split_ws (clean_text [97, 32, 98])). keywords_map ?s w \<noteq> None \<longrightarrow>
                w \<in> set (split_ws (search_text (heap ?s ! 0))))"
    by blast
  with e have "0 \<in> set (search ?s [97, 32, 98])" by (simp add: t k x)
  with sy show ?thesis by simp
qed

text \<open>
  C1, as stated, fails: a token of the query that is absent from the keyword index
  does not make the result empty.
\<close>

lemma search_a_b_loop:
  "search_loop (keywords_map (index_record init 1 [97] [116] 0))
     (split_ws (clean_text [97, 32, 98])) {||} True = {|0|}"
  by (simp add: eval_text eval_engine)

theorem search_absent_token_counterexample:
  "[98] \<in> set (split_ws (clean_text [97, 32, 98]))
   \<and> keywords_map (index_record init 1 [97] [116] 0) [98] = None
   \<and> search (index_record init 1 [97] [116] 0) [97, 32, 98] \<noteq> []"
proof -
  have m: "0 \<in> set (search (index_record init 1 [97] [116] 0) [97, 32, 98])"
    by (simp add: set_search search_a_b_loop)
  have "search (index_record init 1 [97] [116] 0) [97, 32, 98] \<noteq> []"
  proof
    assume "search (index_record init 1 [97] [116] 0) [97, 32, 98] = []"
    then have "set (search (index_record init 1 [97] [116] 0) [97, 32, 98]) = {}" by simp
    with m show False by simp
  qed
  moreover have "[98] \<in> set (split_ws (clean_text [97, 32, 98]))"
    by (simp add: eval_text)
  moreover have "keywords_map (index_record init 1 [97] [116] 0) [98] = None"
    by (simp add: eval_text eval_engine)
  ultimately show ?thesis by simp
qed

section \<open>The index invariant\<close>

text \<open>
  C2. Every reachable state is to keep the index invariant, \<open>index_record\<close> on an id
  that exists retracting the old Record first. \<open>index_record(1, a)\<close> followed by
  \<open>index_record(1, b)\<close> leaves the first object in the set of \<open>a\<close>, although no id maps
  to it any more: the invariant is broken.
\<close>

theorem index_record_existing_id_desync:
  "keywords_map (index_record (index_record init 1 [97] [116] 0) 1 [98] [116] 0) [97] = Some {|0|}
   \<and> (\<forall>i. subs (index_record (index_record init 1 [97] [116] 0) 1 [98] [116] 0) i \<noteq> Some 0)
   \<and> \<not> synced (index_record (index_record init 1 [97] [116] 0) 1 [98] [116] 0)"
proof -
  let ?s = "index_record (index_record init 1 [97] [116] 0) 1 [98] [116] 0"
  have k: "keywords_map ?s [97] = Some {|0|}" by (simp add: eval_text eval_engine)
  have n: "\<forall>i. subs ?s i \<noteq> Some 0" by (simp add: eval_engine)
  have "\<not> synced ?s"
  proof
    assume "synced ?s"
    then have "(\<exists>S. keywords_map ?s [97] = Some S \<and> 0 |\<in>| S) \<longleftrightarrow>
        ((\<exists>i. subs ?s i = Some 0) \<and> [97] \<in> set (split_ws (search_text (heap ?s ! 0))))"
      unfolding synced_def by blast
    with k n show False by simp
  qed
  with k n show ?thesis by simp
qed

section \<open>The user cache: unknown users and permission bounds\<close>

lemma update_permission_ordinal:
  assumes "ordinal_of p = Some v"
  shows "permission (update_permission u p) = PInt v \<and> 1 \<le> v \<and> v \<le> 3"
  using assms
  by (auto simp: ordinal_of_def update_permission_def permission_values_def split: if_splits)

lemma update_permission_keeps:
  "user_id (update_permission u p) = user_id u \<and> last_step (update_permission u p) = last_step u"
  by (simp add: update_permission_def split: pyval.splits option.splits)

lemma cache_reachable_ordinal:
  assumes "cache_reachable lower users"
  shows "users uid = Some u \<Longrightarrow> \<exists>v. permission u = PInt v \<and> 1 \<le> v \<and> v \<le> 3"
  using assms
proof (induction arbitrary: uid u rule: cache_reachable.induct)
  case cache_new
  then show ?case by simp
next
  case (cache_add users p uid' step)
  from cache_add.hyps(2) obtain v where v: "ordinal_of p = Some v" by auto
  show ?case
  proof (cases "uid = uid'")
    case True
    with cache_add.prems update_permission_ordinal [OF v] show ?thesis
      by (auto simp: add_user_def)
  next
    case False
    with cache_add.prems have "users uid = Some u" by (simp add: add_user_def)
    then show ?thesis by (rule cache_add.IH)
  qed
next
  case (cache_permission users p uid')
  from cache_permission.hyps(2) obtain v where v: "ordinal_of p = Some v" by auto
  show ?case
  proof (cases "uid = uid' \<and> users uid' \<noteq> None")
    case True
    with cache_permission.prems update_permission_ordinal [OF v] show ?thesis
      by (auto simp: update_user_permission_def)
  next
    case False
    with cache_permission.prems have "users uid = Some u"
      by (auto simp: update_user_permission_def split: option.splits if_splits)
    then show ?thesis by (rule cache_permission.IH)
  qed
next
  case (cache_step users uid' step)
  show ?case
  proof (cases "uid = uid' \<and> users uid' \<noteq> None")
    case True
    then obtain u0 where u0: "users uid' = Some u0" by auto
    with True cache_step.prems have "permission u = permission u0"
      by (auto simp: update_user_step_def)
    with cache_step.IH [OF u0] show ?thesis by simp
  next
    case False
    with cache_step.prems have "users uid = Some u"
      by (auto simp: update_user_step_def split: option.splits if_splits)
    then show ?thesis by (rule cache_step.IH)
  qed
next
  case (cache_remove users uid')
  from cache_remove.prems have "users uid = Some u"
    by (auto simp: remove_user_def split: option.splits if_splits)
  then show ?case by (rule cache_remove.IH)
qed

text \<open>
  C9. In every cache that the methods build from allowed permissions, \<open>has_permission\<close>
  is False for an unknown id, whatever the bounds; for a registered user it is
  \<open>min \<le> p \<and> p \<le> max\<close>, both bounds included, where \<open>p\<close> is the stored permission, the
  ordinal of the permission the user was given; so the default bounds 1 and 3 admit
  every registered user.
\<close>

theorem has_permission_bounds:
  assumes "cache_reachable lower users"
  shows "(users uid = None \<longrightarrow> cache_has_permission users uid mn mx = Inr False)
       \<and> (\<forall>u. users uid = Some u \<longrightarrow>
            (\<exists>p. permission u = PInt p
                \<and> cache_has_permission users uid mn mx = Inr (mn \<le> p \<and> p \<le> mx)))
       \<and> (users uid \<noteq> None \<longrightarrow> cache_has_permission users uid 1 3 = Inr True)
       \<and> (\<forall>p v step. ordinal_of p = Some v \<longrightarrow>
            cache_has_permission (add_user lower users uid p step) uid mn mx
              = Inr (mn \<le> v \<and> v \<le> mx))
       \<and> (\<forall>p v. ordinal_of p = Some v \<longrightarrow> users uid \<noteq> None \<longrightarrow>
            cache_has_permission (update_user_permission users uid p) uid mn mx
              = Inr (mn \<le> v \<and> v \<le> mx))"
proof -
  have a: "users uid = None \<longrightarrow> cache_has_permission users uid mn mx = Inr False"
    by (simp add: cache_has_permission_def)
  have b: "\<exists>p. permission u = PInt p
      \<and> cache_has_permission users uid mn mx = Inr (mn \<le> p \<and> p \<le> mx)"
    if "users uid = Some u" for u
  proof -
    from cache_reachable_ordinal [OF assms that] obtain v where "permission u = PInt v" by blast
    with that show ?thesis by (simp add: cache_has_permission_def has_permission_def)
  qed
  have c: "users uid \<noteq> None \<longrightarrow> cache_has_permission users uid 1 3 = Inr True"
  proof
    assume "users uid \<noteq> None"
    then obtain u where u: "users uid = Some u" by auto
    from cache_reachable_ordinal [OF assms u] obtain v where
      "permission u = PInt v" "1 \<le> v" "v \<le> 3" by blast
    with u show "cache_has_permission users uid 1 3 = Inr True"
      by (simp add: cache_has_permission_def has_permission_def)
  qed
  have d: "cache_has_permission (add_user lower users uid p step) uid mn mx
      = Inr (mn \<le> v \<and> v \<le> mx)" if "ordinal_of p = Some v" for p v step
    using update_permission_ordinal [OF that]
    by (simp add: cache_has_permission_def has_permission_def add_user_def)
  have e: "cache_has_permission (update_user_permission users uid p) uid mn mx
      = Inr (mn \<le> v \<and> v \<le> mx)" if "ordinal_of p = Some v" "users uid \<noteq> None" for p v
    using update_permission_ordinal [OF that(1)] that(2)
    by (auto simp: cache_has_permission_def has_permission_def update_user_permission_def)
  from a b c d e show ?thesis by blast
qed

theorem has_permission_bounds_witness:
  "cache_reachable (\<lambda>x. x) (add_user (\<lambda>x. x) Map.empty 10 (PStr [69, 100, 105, 116, 111, 114]) [97])
   \<and> add_user (\<lambda>x. x) Map.empty 10 (PStr [69, 100, 105, 116, 111, 114]) [97] 10
       = Some \<lparr>user_id = 10, permission = PInt 2, last_step = [97]\<rparr>
   \<and> cache_has_permission
        (add_user (\<lambda>x. x) Map.empty 10 (PStr [69, 100, 105, 116, 111, 114]) [97]) 10 2 3 = Inr True
   \<and> cache_has_permission
        (add_user (\<lambda>x. x) Map.empty 10 (PStr [69, 100, 105, 116, 111, 114]) [97]) 10 3 3 = Inr False
   \<and> cache_has_permission
        (add_user (\<lambda>x. x) Map.empty 10 (PStr [69, 100, 105, 116, 111, 114]) [97]) 10 1 3 = Inr True
   \<and> cache_has_permission
        (add_user (\<lambda>x. x) Map.empty 10 (PStr [69, 100, 105, 116, 111, 114]) [97]) 11 1 3 = Inr False"
proof -
  let ?c = "add_user (\<lambda>x. x) Map.empty 10 (PStr [69, 100, 105, 116, 111, 114]) [97]"
  let ?u = "\<lparr>user_id = 10, permission = PInt 2, last_step = [97]\<rparr>"
  have o: "ordinal_of (PStr [69, 100, 105, 116, 111, 114]) \<noteq> None" by (simp add: ordinal_of_def)
  have r: "cache_reachable (\<lambda>x. x) ?c"
    by (rule cache_add [OF cache_new o])
  have u: "?c 10 = Some ?u"
    by (simp add: add_user_def update_permission_def permission_values_def strip_def isspace_def)
  have n: "?c 11 = None" by (simp add: add_user_def)
  from has_permission_bounds [OF r, of 10 2 3] u
  have a: "cache_has_permission ?c 10 2 3 = Inr True" by auto
  from has_permission_bounds [OF r, of 10 3 3] u
  have b: "cache_has_permission ?c 10 3 3 = Inr False" by auto
  from has_permission_bounds [OF r, of 10] u
  have c: "cache_has_permission ?c 10 1 3 = Inr True" by auto
  from has_permission_bounds [OF r, of 11 1 3] n
  have d: "cache_has_permission ?c 11 1 3 = Inr False" by auto
  from r u a b c d show ?thesis by blast
qed

text \<open>
  C10. For a user id that is not in the cache, \<open>update_user_permission\<close> and
  \<open>update_user_step\<close> return without an error and leave the cache as it was.
\<close>

theorem cache_update_unknown_noop:
  assumes "users uid = None"
  shows "update_user_permission users uid p = users \<and> update_user_step lower users uid step = users"
  using assms by (simp add: update_user_permission_def update_user_step_def)

theorem cache_update_unknown_noop_witness:
  "(Map.empty :: UserCache) 5 = None
   \<and> update_user_permission Map.empty 5 (PInt 2) = Map.empty
   \<and> update_user_step (\<lambda>x. x) Map.empty 5 [97] = Map.empty"
proof -
  have h: "(Map.empty :: UserCache) 5 = None" by simp
  show ?thesis using h cache_update_unknown_noop [OF h, where p = "PInt 2" and lower = "\<lambda>x. x" and step = "[97]"] by simp
qed

end
